theory Spec2Isabelle
  imports Main
begin

section \<open>backend/documents.py: documents, nodes and the tree\<close>

subsection \<open>Documents\<close>

text \<open>
  A Python \<^verbatim>\<open>str\<close> is a list of characters; one \<^typ>\<open>char\<close> stands for one code
  point, which is what \<^verbatim>\<open>len\<close> and slicing count.  \<^verbatim>\<open>Metadata\<close> is a dictionary
  from field names to strings, read only through \<^verbatim>\<open>metadata.get(k)\<close>.
\<close>

type_synonym str = string

type_synonym Metadata = "str \<rightharpoonup> str"

record Document =
  metadata :: Metadata
  page_content :: str

datatype error = AssertionError | ValidationError

text \<open>
  Truthiness of an optional string: \<^verbatim>\<open>None\<close> and the empty string are both false.
\<close>

fun truthy :: "str option \<Rightarrow> bool" where
  "truthy None = False"
| "truthy (Some v) = (v \<noteq> [])"

text \<open>
  The loop of lines 33 to 36 over \<^verbatim>\<open>settings.PAGE_CONTENT_KEYS\<close>: the first key whose
  value is truthy sets \<^verbatim>\<open>page_content\<close> and leaves the loop; when no key does,
  \<^verbatim>\<open>page_content\<close> stays as it was.
\<close>

fun find_content :: "Metadata \<Rightarrow> str list \<Rightarrow> str option \<Rightarrow> str option" where
  "find_content md [] pc = pc"
| "find_content md (k # ks) pc =
     (if truthy (md k) then md k else find_content md ks pc)"

text \<open>
  The slice \<^verbatim>\<open>s[:n]\<close> for an integer \<^verbatim>\<open>n\<close>: a negative bound counts from the end.
\<close>

definition slice_to :: "str \<Rightarrow> int \<Rightarrow> str" where
  "slice_to s n = (if n < 0 then take (nat (int (length s) + n)) s else take (nat n) s)"

text \<open>
  The constructor call of line 40, \<^verbatim>\<open>cls(metadata=metadata, page_content=page_content)\<close>.
  \<^verbatim>\<open>Document\<close> is a pydantic model whose field \<^verbatim>\<open>metadata\<close> is declared (line 27) with
  the \<^verbatim>\<open>TypedDict\<close> of lines 16 to 23, so the constructor validates the dictionary against
  it: every one of the seven keys must be there and \<^verbatim>\<open>type\<close> must be one of the three
  literals, else it raises \<^verbatim>\<open>ValidationError\<close>; keys the \<^verbatim>\<open>TypedDict\<close> does not declare
  are dropped.  The field \<^verbatim>\<open>page_content\<close> is declared \<^verbatim>\<open>Any\<close> and is taken as it is.
\<close>

definition Metadata_keys :: "str list" where
  "Metadata_keys =
     [''content'', ''summary'', ''title'', ''type'', ''keywords'', ''source'', ''query'']"

definition type_literals :: "str list" where
  "type_literals = [''web_page'', ''essay'', ''wiki'']"

definition valid_metadata :: "Metadata \<Rightarrow> bool" where
  "valid_metadata md =
     (list_all (\<lambda>k. md k \<noteq> None) Metadata_keys \<and>
      (case md ''type'' of None \<Rightarrow> False | Some ty \<Rightarrow> ty \<in> set type_literals))"

definition new_Document :: "Metadata \<Rightarrow> str \<Rightarrow> error + Document" where
  "new_Document md pc =
     (if valid_metadata md
      then Inr \<lparr>metadata = md |` set Metadata_keys, page_content = pc\<rparr>
      else Inl ValidationError)"

text \<open>
  \<^verbatim>\<open>Document.create\<close>.  The two settings it reads, \<^verbatim>\<open>PAGE_CONTENT_KEYS\<close> and
  \<^verbatim>\<open>MAX_CHUNK_SIZE\<close>, are parameters.  The failing \<^verbatim>\<open>assert\<close> of line 39 is an
  error value, and it comes before the constructor call of line 40.
\<close>

definition create :: "str list \<Rightarrow> int \<Rightarrow> Metadata \<Rightarrow> str option \<Rightarrow> error + Document" where
  "create PAGE_CONTENT_KEYS MAX_CHUNK_SIZE md pc =
     (let pc1 = (if \<not> truthy pc
                 then find_content md PAGE_CONTENT_KEYS pc
                 else pc);
          pc2 = (if truthy pc1 \<and> int (length (the pc1)) > MAX_CHUNK_SIZE
                 then Some (slice_to (the pc1) MAX_CHUNK_SIZE @ ''...'')
                 else pc1)
      in if truthy pc2
         then new_Document md (the pc2)
         else Inl AssertionError)"

subsection \<open>Nodes\<close>

text \<open>
  \<^verbatim>\<open>NodeDataType = Union[Document, Query]\<close> with \<^verbatim>\<open>Query = str\<close>.  The discriminator
  is the test \<^verbatim>\<open>isinstance(data, Document)\<close>.
\<close>

datatype NodeDataType = is_Document: Doc (the_Document: Document) | Qry (the_Query: str)

text \<open>
  Nodes are objects that are shared between their parent's child list and the tree's
  queue, and \<^verbatim>\<open>delete\<close> mutates them in place.  So the nodes live in a store: a node
  reference is an address, the store is the list of all \<^verbatim>\<open>Node\<close> objects made so far,
  and constructing a \<^verbatim>\<open>Node\<close> appends to it.  Every node has a child list of its own
  (the \<^verbatim>\<open>default_factory\<close> of the dataclass).  A reference always denotes an object, so
  the properties below are about addresses inside the store.
\<close>

type_synonym addr = nat

record Node =
  data :: NodeDataType
  parent :: "addr option"
  child_nodes :: "addr list"
  deleted :: bool

type_synonym heap = "Node list"

text \<open>\<^verbatim>\<open>Node(data=data, parent=self)\<close>, with the defaults of the dataclass.\<close>

definition new_Node :: "NodeDataType \<Rightarrow> addr \<Rightarrow> Node" where
  "new_Node d self = \<lparr>data = d, parent = Some self, child_nodes = [], deleted = False\<rparr>"

definition node_type :: "Node \<Rightarrow> str" where
  "node_type n = (if is_Document (data n) then ''Document'' else ''Query'')"

text \<open>
  The loop of \<^verbatim>\<open>add_child_nodes\<close> (lines 62, 63): each item makes one node, whose
  reference is appended to the local list \<^verbatim>\<open>nodes\<close>.
\<close>

fun make_nodes :: "addr \<Rightarrow> NodeDataType list \<Rightarrow> heap \<Rightarrow> addr list \<Rightarrow> heap \<times> addr list" where
  "make_nodes self [] h nodes = (h, nodes)"
| "make_nodes self (d # ds) h nodes = make_nodes self ds (h @ [new_Node d self]) (nodes @ [length h])"

definition add_child_nodes :: "addr \<Rightarrow> NodeDataType list \<Rightarrow> heap \<Rightarrow> heap" where
  "add_child_nodes self dataset h =
     (case make_nodes self dataset h [] of
        (h', nodes) \<Rightarrow> h'[self := (h' ! self)\<lparr>child_nodes := child_nodes (h' ! self) @ nodes\<rparr>])"

text \<open>
  \<^verbatim>\<open>all_nodes\<close> calls itself on every child.  The first argument bounds the depth of
  nested calls; \<open>None\<close> is the call that does not return within that depth (Python
  raises \<^verbatim>\<open>RecursionError\<close> at the interpreter's limit, and on a cyclic structure at
  every limit).  \<open>all_nodes_loop\<close> is the loop of lines 68, 69 with its accumulator
  \<^verbatim>\<open>nodes\<close>.
\<close>

fun all_nodes :: "nat \<Rightarrow> heap \<Rightarrow> addr \<Rightarrow> addr list option"
  and all_nodes_loop :: "nat \<Rightarrow> heap \<Rightarrow> addr list \<Rightarrow> addr list \<Rightarrow> addr list option" where
  "all_nodes 0 h self = None"
| "all_nodes (Suc k) h self = all_nodes_loop k h (child_nodes (h ! self)) [self]"
| "all_nodes_loop k h [] nodes = Some nodes"
| "all_nodes_loop k h (node # rest) nodes =
     (case all_nodes k h node of
        None \<Rightarrow> None
      | Some sub \<Rightarrow> all_nodes_loop k h rest (nodes @ sub))"

definition all_documents :: "nat \<Rightarrow> heap \<Rightarrow> addr \<Rightarrow> NodeDataType list option" where
  "all_documents k h self =
     (case all_nodes k h self of
        None \<Rightarrow> None
      | Some nodes \<Rightarrow>
          Some [data (h ! node). node \<leftarrow> nodes,
                  node_type (h ! node) = ''Document'' \<and> deleted (h ! node) = False])"

definition delete :: "addr \<Rightarrow> heap \<Rightarrow> heap" where
  "delete self h = h[self := (h ! self)\<lparr>deleted := True\<rparr>]"

subsection \<open>The tree\<close>

text \<open>
  \<^verbatim>\<open>leaf_nodes\<close> is a \<^verbatim>\<open>collections.deque\<close> without a length bound: a list whose head
  is the left end.  \<^verbatim>\<open>extendleft\<close> appends the items to the left one after the other;
  \<^verbatim>\<open>extend\<close> appends them to the right.
\<close>

definition deque_appendleft :: "'a \<Rightarrow> 'a list \<Rightarrow> 'a list" where
  "deque_appendleft x dq = x # dq"

definition deque_extendleft :: "'a list \<Rightarrow> 'a list \<Rightarrow> 'a list" where
  "deque_extendleft dq xs = fold deque_appendleft xs dq"

definition deque_extend :: "'a list \<Rightarrow> 'a list \<Rightarrow> 'a list" where
  "deque_extend dq xs = dq @ xs"

record Tree =
  root :: addr
  tokens :: int
  leaf_nodes :: "addr list"
  doc_node_num :: int
  embedding_model :: str

text \<open>The field defaults of \<^verbatim>\<open>Tree\<close>.\<close>

definition new_Tree :: "addr \<Rightarrow> Tree" where
  "new_Tree r = \<lparr>root = r, tokens = 0, leaf_nodes = [], doc_node_num = 0,
                 embedding_model = ''gpt-3.5-turbo''\<rparr>"

text \<open>
  The \<^verbatim>\<open>dataset\<close> argument of \<^verbatim>\<open>add_nodes\<close> is either one item or a list of items.
  Lines 92, 93 wrap it in a list when it is not a \<^verbatim>\<open>Sequence\<close>.  A \<^verbatim>\<open>Document\<close> is not
  a \<^verbatim>\<open>Sequence\<close>.  A \<^verbatim>\<open>Query\<close> is a \<^verbatim>\<open>str\<close>, which is a \<^verbatim>\<open>Sequence\<close>: it is not wrapped,
  and iterating over it yields its characters, each a \<^verbatim>\<open>str\<close> of length one.
  \<open>items\<close> is the iteration \<^verbatim>\<open>for data in dataset\<close>; its equation for a lone Document
  is never used, since line 93 has wrapped the Document before anything iterates.
\<close>

datatype dataset = Single NodeDataType | Items "NodeDataType list"

fun is_Sequence :: "dataset \<Rightarrow> bool" where
  "is_Sequence (Single (Doc d)) = False"
| "is_Sequence (Single (Qry q)) = True"
| "is_Sequence (Items xs) = True"

fun items :: "dataset \<Rightarrow> NodeDataType list" where
  "items (Items xs) = xs"
| "items (Single (Qry q)) = map (\<lambda>c. Qry [c]) q"
| "items (Single (Doc d)) = [Doc d]"

definition as_sequence :: "dataset \<Rightarrow> NodeDataType list" where
  "as_sequence ds = (if \<not> is_Sequence ds then (case ds of Single x \<Rightarrow> [x] | Items xs \<Rightarrow> xs) else items ds)"

text \<open>
  \<^verbatim>\<open>Tree.add_nodes\<close>.  The tokenizer \<^verbatim>\<open>self._encoding.encode\<close> is the parameter
  \<open>encode\<close>, from a text to its list of token ids.
\<close>

definition add_nodes ::
    "(str \<Rightarrow> nat list) \<Rightarrow> addr \<Rightarrow> dataset \<Rightarrow> heap \<times> Tree \<Rightarrow> heap \<times> Tree" where
  "add_nodes encode p ds s =
     (case s of (h, t) \<Rightarrow>
        let dataset = as_sequence ds;
            h' = add_child_nodes p dataset h;
            documents = filter is_Document dataset
        in if documents \<noteq> []
           then let doc_texts = concat (map (\<lambda>doc. page_content (the_Document doc)) documents)
                in (h', t\<lparr>leaf_nodes := deque_extendleft (leaf_nodes t) (child_nodes (h' ! p)),
                          doc_node_num := doc_node_num t + int (length documents),
                          tokens := tokens t + int (length (encode doc_texts))\<rparr>)
           else (h', t\<lparr>leaf_nodes := deque_extend (leaf_nodes t) (child_nodes (h' ! p))\<rparr>))"

definition tree_all_nodes :: "nat \<Rightarrow> heap \<times> Tree \<Rightarrow> addr list option" where
  "tree_all_nodes k s = all_nodes k (fst s) (root (snd s))"

definition tree_all_documents :: "nat \<Rightarrow> heap \<times> Tree \<Rightarrow> NodeDataType list option" where
  "tree_all_documents k s = all_documents k (fst s) (root (snd s))"

text \<open>
  A run of the driver: calls of \<^verbatim>\<open>Tree.add_nodes\<close> and of \<^verbatim>\<open>Node.delete\<close> in any
  order.
\<close>

datatype op = Add_nodes addr dataset | Delete addr

fun step :: "(str \<Rightarrow> nat list) \<Rightarrow> op \<Rightarrow> heap \<times> Tree \<Rightarrow> heap \<times> Tree" where
  "step encode (Add_nodes p ds) s = add_nodes encode p ds s"
| "step encode (Delete a) s = (delete a (fst s), snd s)"

fun run :: "(str \<Rightarrow> nat list) \<Rightarrow> op list \<Rightarrow> heap \<times> Tree \<Rightarrow> heap \<times> Tree" where
  "run encode [] s = s"
| "run encode (x # xs) s = run encode xs (step encode x s)"

subsection \<open>Definitions that follow the specification's words\<close>

text \<open>
  The text of the added Documents, in dataset order: a Document contributes its page
  content, a Query contributes nothing.
\<close>

fun spec_documents_text :: "NodeDataType list \<Rightarrow> str" where
  "spec_documents_text [] = []"
| "spec_documents_text (Doc d # xs) = page_content d @ spec_documents_text xs"
| "spec_documents_text (Qry q # xs) = spec_documents_text xs"

text \<open>The number of Document items a caller passes in one \<open>dataset\<close> argument.\<close>

fun spec_documents_in :: "dataset \<Rightarrow> nat" where
  "spec_documents_in (Single x) = (if is_Document x then 1 else 0)"
| "spec_documents_in (Items xs) = length (filter is_Document xs)"

text \<open>The number of Document items passed over a whole run.\<close>

fun spec_documents_passed :: "op list \<Rightarrow> nat" where
  "spec_documents_passed [] = 0"
| "spec_documents_passed (Add_nodes p ds # xs) = spec_documents_in ds + spec_documents_passed xs"
| "spec_documents_passed (Delete a # xs) = spec_documents_passed xs"

text \<open>
  The first non-empty value among the candidate fields, in the configured order; and
  the content a Document is made from: the explicit body when one is given (an empty
  string counts as none, as in the test of line 32), else that first candidate value.
\<close>

definition spec_first_content :: "Metadata \<Rightarrow> str list \<Rightarrow> str option" where
  "spec_first_content md keys = List.find (\<lambda>v. v \<noteq> []) (List.map_filter md keys)"

definition spec_content :: "Metadata \<Rightarrow> str list \<Rightarrow> str option \<Rightarrow> str option" where
  "spec_content md keys pc = (if truthy pc then pc else spec_first_content md keys)"

subsection \<open>Stores that hold trees\<close>

text \<open>
  \<open>all_nodes\<close> returns on a store without cycles.  Such a store can be laid out with
  every child at a larger address than its parent; \<open>add_child_nodes\<close> allocates that
  way, so every store grown from a root by \<open>add_nodes\<close> and \<open>delete\<close> calls has this
  shape (\<open>wf_heap_root\<close>, \<open>wf_heap_add_nodes\<close>, \<open>wf_heap_delete\<close> below).
\<close>

definition wf_heap :: "heap \<Rightarrow> bool" where
  "wf_heap h =
     list_all (\<lambda>a. list_all (\<lambda>c. a < c \<and> c < length h) (child_nodes (h ! a))) [0 ..< length h]"

subsection \<open>Example values\<close>

definition example_md :: Metadata where
  "example_md =
     [''content'' \<mapsto> [], ''summary'' \<mapsto> ''abcdef'', ''title'' \<mapsto> ''t'',
      ''type'' \<mapsto> ''essay'', ''keywords'' \<mapsto> ''k'', ''source'' \<mapsto> ''s'',
      ''query'' \<mapsto> ''q'']"

definition example_doc :: Document where
  "example_doc = \<lparr>metadata = example_md, page_content = ''hello''\<rparr>"

definition example_root :: Node where
  "example_root = \<lparr>data = Qry ''q0'', parent = None, child_nodes = [], deleted = False\<rparr>"

definition example_encode :: "str \<Rightarrow> nat list" where
  "example_encode s = map of_char s"

definition example_state :: "heap \<times> Tree" where
  "example_state = ([example_root], new_Tree 0)"

definition example_heap_AB :: heap where
  "example_heap_AB =
     [\<lparr>data = Qry ''q0'', parent = None, child_nodes = [1, 2], deleted = False\<rparr>,
      new_Node (Qry ''a'') 0, new_Node (Doc example_doc) 0]"

definition example_doc2 :: Document where
  "example_doc2 = \<lparr>metadata = example_md, page_content = ''world''\<rparr>"

definition example_tree :: heap where
  "example_tree =
     [\<lparr>data = Qry ''q0'', parent = None, child_nodes = [1, 2], deleted = False\<rparr>,
      \<lparr>data = Doc example_doc, parent = Some 0, child_nodes = [3], deleted = False\<rparr>,
      \<lparr>data = Qry ''q1'', parent = Some 0, child_nodes = [], deleted = False\<rparr>,
      \<lparr>data = Doc example_doc2, parent = Some 1, child_nodes = [], deleted = False\<rparr>]"

section \<open>Properties\<close>

subsection \<open>Creating a document\<close>

lemma spec_first_content_Nil [simp]: "spec_first_content md [] = None"
  by (simp add: spec_first_content_def List.map_filter_simps)

lemma spec_first_content_Cons:
  "spec_first_content md (k # ks) = (if truthy (md k) then md k else spec_first_content md ks)"
  by (cases "md k") (simp_all add: spec_first_content_def List.map_filter_simps)

lemma spec_first_content_nonempty: "spec_first_content md keys = Some v \<Longrightarrow> v \<noteq> []"
  by (induction keys) (auto simp: spec_first_content_Cons split: if_splits)

lemma find_content_spec:
  "find_content md keys pc =
     (case spec_first_content md keys of None \<Rightarrow> pc | Some v \<Rightarrow> Some v)"
proof (induction keys)
  case Nil
  show ?case by simp
next
  case (Cons k ks)
  show ?case
  proof (cases "truthy (md k)")
    case True
    then obtain v where "md k = Some v" by (cases "md k") auto
    with True show ?thesis by (simp add: spec_first_content_Cons)
  next
    case False
    with Cons.IH show ?thesis by (simp add: spec_first_content_Cons)
  qed
qed

lemma spec_first_content_index:
  "spec_first_content md keys = Some v \<longleftrightarrow>
     (\<exists>i<length keys. md (keys ! i) = Some v \<and> v \<noteq> [] \<and> (\<forall>j<i. \<not> truthy (md (keys ! j))))"
proof (induction keys)
  case Nil
  show ?case by simp
next
  case (Cons k ks)
  show ?case
  proof (cases "truthy (md k)")
    case True
    then obtain w where w: "md k = Some w" "w \<noteq> []" by (cases "md k") auto
    have "(\<exists>i<length (k # ks). md ((k # ks) ! i) = Some v \<and> v \<noteq> [] \<and> (\<forall>j<i. \<not> truthy (md ((k # ks) ! j))))
        \<longleftrightarrow> w = v"
    proof
      assume "\<exists>i<length (k # ks). md ((k # ks) ! i) = Some v \<and> v \<noteq> [] \<and> (\<forall>j<i. \<not> truthy (md ((k # ks) ! j)))"
      then obtain i where i: "md ((k # ks) ! i) = Some v" "\<forall>j<i. \<not> truthy (md ((k # ks) ! j))"
        by blast
      have "i = 0"
      proof (rule ccontr)
        assume "i \<noteq> 0"
        then have "0 < i" by simp
        with i(2) have "\<not> truthy (md ((k # ks) ! 0))" by blast
        with True show False by simp
      qed
      with i(1) w show "w = v" by simp
    next
      assume "w = v"
      with w have "0 < length (k # ks) \<and> md ((k # ks) ! 0) = Some v \<and> v \<noteq> []
          \<and> (\<forall>j<0. \<not> truthy (md ((k # ks) ! j)))"
        by simp
      then show "\<exists>i<length (k # ks). md ((k # ks) ! i) = Some v \<and> v \<noteq> [] \<and> (\<forall>j<i. \<not> truthy (md ((k # ks) ! j)))"
        by blast
    qed
    with True w show ?thesis by (simp add: spec_first_content_Cons)
  next
    case False
    have "(\<exists>i<length (k # ks). md ((k # ks) ! i) = Some v \<and> v \<noteq> [] \<and> (\<forall>j<i. \<not> truthy (md ((k # ks) ! j))))
        \<longleftrightarrow> (\<exists>i<length ks. md (ks ! i) = Some v \<and> v \<noteq> [] \<and> (\<forall>j<i. \<not> truthy (md (ks ! j))))"
    proof
      assume "\<exists>i<length (k # ks). md ((k # ks) ! i) = Some v \<and> v \<noteq> [] \<and> (\<forall>j<i. \<not> truthy (md ((k # ks) ! j)))"
      then obtain i where i: "i < length (k # ks)" "md ((k # ks) ! i) = Some v" "v \<noteq> []"
        "\<forall>j<i. \<not> truthy (md ((k # ks) ! j))"
        by blast
      from i(2,3) False have "i \<noteq> 0" by (cases i) auto
      then obtain m where m: "i = Suc m" by (cases i) auto
      with i(1,2) have "m < length ks" "md (ks ! m) = Some v" by simp_all
      moreover have "\<forall>j<m. \<not> truthy (md (ks ! j))"
      proof (intro allI impI)
        fix j assume "j < m"
        then have "Suc j < i" using m by simp
        with i(4) have "\<not> truthy (md ((k # ks) ! Suc j))" by blast
        then show "\<not> truthy (md (ks ! j))" by simp
      qed
      ultimately show "\<exists>i<length ks. md (ks ! i) = Some v \<and> v \<noteq> [] \<and> (\<forall>j<i. \<not> truthy (md (ks ! j)))"
        using i(3) by blast
    next
      assume "\<exists>i<length ks. md (ks ! i) = Some v \<and> v \<noteq> [] \<and> (\<forall>j<i. \<not> truthy (md (ks ! j)))"
      then obtain i where i: "i < length ks" "md (ks ! i) = Some v" "v \<noteq> []"
        "\<forall>j<i. \<not> truthy (md (ks ! j))"
        by blast
      have "\<forall>j<Suc i. \<not> truthy (md ((k # ks) ! j))"
      proof (intro allI impI)
        fix j assume j: "j < Suc i"
        show "\<not> truthy (md ((k # ks) ! j))"
        proof (cases j)
          case 0
          with False show ?thesis by simp
        next
          case (Suc m)
          with j have "m < i" by simp
          with i(4) have "\<not> truthy (md (ks ! m))" by blast
          with Suc show ?thesis by simp
        qed
      qed
      with i(1,2,3) have "Suc i < length (k # ks) \<and> md ((k # ks) ! Suc i) = Some v \<and> v \<noteq> []
          \<and> (\<forall>j<Suc i. \<not> truthy (md ((k # ks) ! j)))"
        by simp
      then show "\<exists>i<length (k # ks). md ((k # ks) ! i) = Some v \<and> v \<noteq> [] \<and> (\<forall>j<i. \<not> truthy (md ((k # ks) ! j)))"
        by blast
    qed
    with False Cons.IH show ?thesis by (simp add: spec_first_content_Cons)
  qed
qed


lemma create_eq:
  "create keys mx md pc =
     (case spec_content md keys pc of
        None \<Rightarrow> Inl AssertionError
      | Some c \<Rightarrow>
          new_Document md (if mx < int (length c) then slice_to c mx @ ''...'' else c))"
proof (cases "truthy pc")
  case True
  then obtain c where "pc = Some c" "c \<noteq> []" by (cases pc) auto
  then show ?thesis by (simp add: create_def spec_content_def Let_def)
next
  case False
  show ?thesis
  proof (cases "spec_first_content md keys")
    case None
    with False show ?thesis
      by (simp add: create_def spec_content_def Let_def find_content_spec)
  next
    case (Some v)
    then have "v \<noteq> []" by (rule spec_first_content_nonempty)
    with False Some show ?thesis
      by (simp add: create_def spec_content_def Let_def find_content_spec)
  qed
qed

lemma new_Document_not_AssertionError: "new_Document md c \<noteq> Inl AssertionError"
  by (simp add: new_Document_def)

lemma create_invalid_metadata:
  "\<not> valid_metadata md \<Longrightarrow> spec_content md keys pc = Some c \<Longrightarrow>
     create keys mx md pc = Inl ValidationError"
  by (simp add: create_eq new_Document_def)

lemma valid_metadata_example: "valid_metadata example_md"
  by (simp add: valid_metadata_def example_md_def Metadata_keys_def type_literals_def)

subsection \<open>Creating child nodes\<close>

lemma make_nodes_eq:
  "make_nodes self ds h nodes =
     (h @ map (\<lambda>d. new_Node d self) ds, nodes @ [length h ..< length h + length ds])"
proof (induction ds arbitrary: h nodes)
  case Nil
  show ?case by simp
next
  case (Cons d ds)
  have "[length h ..< length h + Suc (length ds)] =
          length h # [Suc (length h) ..< Suc (length h) + length ds]"
    by (subst upt_rec) simp
  then show ?case using Cons.IH by (simp del: upt_Suc)
qed

lemma add_child_nodes_eq:
  "add_child_nodes self ds h =
     (h @ map (\<lambda>d. new_Node d self) ds)
       [self := ((h @ map (\<lambda>d. new_Node d self) ds) ! self)
          \<lparr>child_nodes := child_nodes ((h @ map (\<lambda>d. new_Node d self) ds) ! self)
                           @ [length h ..< length h + length ds]\<rparr>]"
  by (simp add: add_child_nodes_def make_nodes_eq)

lemma length_add_child_nodes [simp]:
  "length (add_child_nodes self ds h) = length h + length ds"
  by (simp add: add_child_nodes_eq)

lemma child_nodes_add_child_nodes:
  "self < length h \<Longrightarrow>
     child_nodes (add_child_nodes self ds h ! self) =
       child_nodes (h ! self) @ [length h ..< length h + length ds]"
  by (simp add: add_child_nodes_eq nth_append)

lemma add_child_nodes_other:
  "a < length h \<Longrightarrow> a \<noteq> self \<Longrightarrow> add_child_nodes self ds h ! a = h ! a"
  by (simp add: add_child_nodes_eq nth_append)

lemma add_child_nodes_new:
  "self < length h \<Longrightarrow> i < length ds \<Longrightarrow>
     add_child_nodes self ds h ! (length h + i) = new_Node (ds ! i) self"
  by (simp add: add_child_nodes_eq nth_append)

lemma add_child_nodes_fields:
  "self < length h \<Longrightarrow>
     data (add_child_nodes self ds h ! self) = data (h ! self) \<and>
     parent (add_child_nodes self ds h ! self) = parent (h ! self) \<and>
     deleted (add_child_nodes self ds h ! self) = deleted (h ! self)"
  by (simp add: add_child_nodes_eq nth_append)

lemma add_child_nodes_new_data:
  assumes "self < length h"
  shows "map (\<lambda>a. data (add_child_nodes self ds h ! a)) [length h ..< length h + length ds] = ds"
proof (rule nth_equalityI)
  show "length (map (\<lambda>a. data (add_child_nodes self ds h ! a)) [length h ..< length h + length ds]) = length ds"
    by simp
next
  fix i
  assume "i < length (map (\<lambda>a. data (add_child_nodes self ds h ! a)) [length h ..< length h + length ds])"
  then have i: "i < length ds" by simp
  then show "map (\<lambda>a. data (add_child_nodes self ds h ! a)) [length h ..< length h + length ds] ! i = ds ! i"
    using add_child_nodes_new [OF assms i] by (simp add: new_Node_def)
qed

subsection \<open>One call of add_nodes\<close>

lemma deque_extendleft_rev: "deque_extendleft dq xs = rev xs @ dq"
  unfolding deque_extendleft_def
  by (induction xs arbitrary: dq) (simp_all add: deque_appendleft_def)

lemma filter_chars_empty: "filter is_Document (map (\<lambda>c. Qry [c]) q) = []"
  by (induction q) simp_all

lemma documents_as_sequence:
  "length (filter is_Document (as_sequence ds)) = spec_documents_in ds"
proof (cases ds)
  case (Single x)
  then show ?thesis by (cases x) (simp_all add: as_sequence_def filter_chars_empty)
next
  case (Items xs)
  then show ?thesis by (simp add: as_sequence_def)
qed

lemma documents_text_filter:
  "concat (map (\<lambda>doc. page_content (the_Document doc)) (filter is_Document xs)) =
     spec_documents_text xs"
  by (induction xs rule: spec_documents_text.induct) simp_all

lemma add_nodes_heap:
  "fst (add_nodes encode p ds (h, t)) = add_child_nodes p (as_sequence ds) h"
  by (simp add: add_nodes_def Let_def)

lemma add_nodes_documents:
  "filter is_Document (as_sequence ds) \<noteq> [] \<Longrightarrow>
     snd (add_nodes encode p ds (h, t)) =
       t\<lparr>leaf_nodes := rev (child_nodes (add_child_nodes p (as_sequence ds) h ! p)) @ leaf_nodes t,
         doc_node_num := doc_node_num t + int (spec_documents_in ds),
         tokens := tokens t + int (length (encode (spec_documents_text (as_sequence ds))))\<rparr>"
  by (simp add: add_nodes_def Let_def deque_extendleft_rev documents_as_sequence
      documents_text_filter)

lemma add_nodes_queries:
  "filter is_Document (as_sequence ds) = [] \<Longrightarrow>
     snd (add_nodes encode p ds (h, t)) =
       t\<lparr>leaf_nodes := leaf_nodes t @ child_nodes (add_child_nodes p (as_sequence ds) h ! p)\<rparr>"
  by (simp add: add_nodes_def Let_def deque_extend_def)

lemmas example_simps =
  example_state_def example_root_def new_Tree_def add_nodes_def as_sequence_def
  add_child_nodes_def new_Node_def deque_extendleft_def deque_appendleft_def deque_extend_def
  Let_def

subsection \<open>Runs\<close>

lemma add_nodes_counters:
  "doc_node_num (snd (add_nodes encode p ds s)) = doc_node_num (snd s) + int (spec_documents_in ds)
   \<and> tokens (snd s) \<le> tokens (snd (add_nodes encode p ds s))"
proof (cases s)
  case (Pair h t)
  show ?thesis
  proof (cases "filter is_Document (as_sequence ds) = []")
    case True
    then have "spec_documents_in ds = 0"
      using documents_as_sequence [of ds] by simp
    with True Pair show ?thesis by (simp add: add_nodes_queries)
  next
    case False
    with Pair show ?thesis by (simp add: add_nodes_documents)
  qed
qed

lemma step_counters:
  "doc_node_num (snd (step encode x s)) = doc_node_num (snd s) + int (spec_documents_passed [x])
   \<and> tokens (snd s) \<le> tokens (snd (step encode x s))"
  by (cases x) (simp_all add: add_nodes_counters)

lemma run_counters:
  "doc_node_num (snd (run encode xs s)) = doc_node_num (snd s) + int (spec_documents_passed xs)
   \<and> tokens (snd s) \<le> tokens (snd (run encode xs s))"
proof (induction xs arbitrary: s)
  case Nil
  show ?case by simp
next
  case (Cons x xs)
  have a: "spec_documents_passed (x # xs) = spec_documents_passed [x] + spec_documents_passed xs"
    by (cases x) simp_all
  from Cons.IH [of "step encode x s"] step_counters [of encode x s] a
  show ?case by simp
qed

lemma step_heap_length: "length (fst s) \<le> length (fst (step encode x s))"
proof (cases x)
  case (Add_nodes q ds)
  then show ?thesis by (cases s) (simp add: add_nodes_heap)
next
  case (Delete a)
  then show ?thesis by (simp add: delete_def)
qed

lemma step_keeps_children:
  assumes "p < length (fst s)"
  shows "set (child_nodes (fst s ! p)) \<subseteq> set (child_nodes (fst (step encode x s) ! p))"
proof (cases x)
  case (Add_nodes q ds)
  obtain h t where s: "s = (h, t)" by (cases s)
  show ?thesis
  proof (cases "q = p")
    case True
    with assms s Add_nodes show ?thesis
      by (simp add: add_nodes_heap child_nodes_add_child_nodes)
  next
    case False
    with assms s Add_nodes show ?thesis
      by (simp add: add_nodes_heap add_child_nodes_other)
  qed
next
  case (Delete a)
  with assms show ?thesis
    by (cases "a = p") (simp_all add: delete_def)
qed

lemma run_keeps_children:
  "p < length (fst s) \<Longrightarrow>
     p < length (fst (run encode xs s)) \<and>
     set (child_nodes (fst s ! p)) \<subseteq> set (child_nodes (fst (run encode xs s) ! p))"
proof (induction xs arbitrary: s)
  case Nil
  then show ?case by simp
next
  case (Cons x xs)
  from Cons.prems step_heap_length [of s encode x]
  have p: "p < length (fst (step encode x s))" by simp
  from Cons.IH [OF p] step_keeps_children [OF Cons.prems, of encode x]
  show ?case by auto
qed

lemma add_nodes_leaf_count:
  "count_list (leaf_nodes (snd (add_nodes encode p ds s))) c =
     count_list (leaf_nodes (snd s)) c
       + count_list (child_nodes (fst (add_nodes encode p ds s) ! p)) c"
proof (cases s)
  case (Pair h t)
  show ?thesis
  proof (cases "filter is_Document (as_sequence ds) = []")
    case True
    with Pair show ?thesis by (simp add: add_nodes_heap add_nodes_queries)
  next
    case False
    with Pair show ?thesis by (simp add: add_nodes_heap add_nodes_documents)
  qed
qed

lemma step_leaf_count:
  "count_list (leaf_nodes (snd s)) c \<le> count_list (leaf_nodes (snd (step encode x s))) c"
  by (cases x) (simp_all add: add_nodes_leaf_count)

lemma run_leaf_count:
  "count_list (leaf_nodes (snd s)) c \<le> count_list (leaf_nodes (snd (run encode xs s))) c"
proof (induction xs arbitrary: s)
  case Nil
  show ?case by simp
next
  case (Cons x xs)
  from Cons.IH [of "step encode x s"] step_leaf_count [of s c encode x]
  show ?case by simp
qed

lemma count_list_pos: "c \<in> set xs \<Longrightarrow> 1 \<le> count_list xs c"
  using count_list_0_iff [of xs c] by simp

subsection \<open>Traversal\<close>

lemma wf_heap_child:
  assumes "wf_heap h" and "a < length h" and "c \<in> set (child_nodes (h ! a))"
  shows "a < c \<and> c < length h"
proof -
  from assms(2) have "a \<in> set [0 ..< length h]" by simp
  with assms(1) have "list_all (\<lambda>c. a < c \<and> c < length h) (child_nodes (h ! a))"
    unfolding wf_heap_def list_all_iff by (rule bspec)
  then have "\<forall>c\<in>set (child_nodes (h ! a)). a < c \<and> c < length h"
    unfolding list_all_iff .
  then show ?thesis using assms(3) by (rule bspec)
qed

lemma all_nodes_loop_Some:
  "all_nodes_loop k h cs acc = Some r \<longleftrightarrow>
     (\<exists>subs. map (all_nodes k h) cs = map Some subs \<and> r = acc @ concat subs)"
proof (induction cs arbitrary: acc)
  case Nil
  show ?case by auto
next
  case (Cons c cs)
  show ?case
  proof (cases "all_nodes k h c")
    case None
    then show ?thesis by auto
  next
    case (Some sub)
    have "all_nodes_loop k h (c # cs) acc = Some r \<longleftrightarrow>
        (\<exists>subs. map (all_nodes k h) cs = map Some subs \<and> r = (acc @ sub) @ concat subs)"
      using Some Cons.IH [of "acc @ sub"] by simp
    also have "\<dots> \<longleftrightarrow>
        (\<exists>subs. map (all_nodes k h) (c # cs) = map Some subs \<and> r = acc @ concat subs)"
    proof
      assume "\<exists>subs. map (all_nodes k h) cs = map Some subs \<and> r = (acc @ sub) @ concat subs"
      then obtain subs where "map (all_nodes k h) cs = map Some subs" "r = (acc @ sub) @ concat subs"
        by blast
      then have "map (all_nodes k h) (c # cs) = map Some (sub # subs) \<and> r = acc @ concat (sub # subs)"
        using Some by simp
      then show "\<exists>subs. map (all_nodes k h) (c # cs) = map Some subs \<and> r = acc @ concat subs"
        by blast
    next
      assume "\<exists>subs. map (all_nodes k h) (c # cs) = map Some subs \<and> r = acc @ concat subs"
      then obtain subs where s: "map (all_nodes k h) (c # cs) = map Some subs" "r = acc @ concat subs"
        by blast
      then obtain x xs where "subs = x # xs" by (cases subs) auto
      with s Some have "map (all_nodes k h) cs = map Some xs \<and> r = (acc @ sub) @ concat xs"
        by simp
      then show "\<exists>subs. map (all_nodes k h) cs = map Some subs \<and> r = (acc @ sub) @ concat subs"
        by blast
    qed
    finally show ?thesis .
  qed
qed

lemma map_Some_exists:
  "(\<And>c. c \<in> set cs \<Longrightarrow> \<exists>ns. f c = Some ns) \<Longrightarrow> \<exists>subs. map f cs = map Some subs"
proof (induction cs)
  case Nil
  show ?case by simp
next
  case (Cons c cs)
  then obtain subs where "map f cs = map Some subs" by auto
  moreover from Cons.prems obtain ns where "f c = Some ns" by auto
  ultimately have "map f (c # cs) = map Some (ns # subs)" by simp
  then show ?case by blast
qed

lemma all_nodes_returns:
  "wf_heap h \<Longrightarrow> n < length h \<Longrightarrow> length h - n \<le> k \<Longrightarrow> \<exists>ns. all_nodes k h n = Some ns"
proof (induction k arbitrary: n)
  case 0
  then show ?case by simp
next
  case (Suc k)
  have "\<exists>subs. map (all_nodes k h) (child_nodes (h ! n)) = map Some subs"
  proof (rule map_Some_exists)
    fix c
    assume c: "c \<in> set (child_nodes (h ! n))"
    from Suc.prems(1,2) c have "n < c \<and> c < length h" by (rule wf_heap_child)
    with Suc.prems(3) have "c < length h" "length h - c \<le> k" by auto
    with Suc.IH Suc.prems(1) show "\<exists>ns. all_nodes k h c = Some ns" by blast
  qed
  then show ?case by (simp add: all_nodes_loop_Some)
qed

lemma all_nodes_Suc:
  "all_nodes k h n = Some ns \<Longrightarrow> all_nodes (Suc k) h n = Some ns"
proof (induction k arbitrary: n ns)
  case 0
  then show ?case by simp
next
  case (Suc k)
  from Suc.prems obtain subs where
    subs: "map (all_nodes k h) (child_nodes (h ! n)) = map Some subs" and ns: "ns = [n] @ concat subs"
    by (auto simp: all_nodes_loop_Some)
  have "map (all_nodes (Suc k) h) (child_nodes (h ! n)) = map Some subs"
  proof (rule nth_equalityI)
    show "length (map (all_nodes (Suc k) h) (child_nodes (h ! n))) = length (map Some subs)"
      using subs by (metis length_map)
  next
    fix i
    assume "i < length (map (all_nodes (Suc k) h) (child_nodes (h ! n)))"
    then have i: "i < length (child_nodes (h ! n))" by simp
    then have "all_nodes k h (child_nodes (h ! n) ! i) = Some (subs ! i)"
      using subs by (metis length_map nth_map)
    then have "all_nodes (Suc k) h (child_nodes (h ! n) ! i) = Some (subs ! i)"
      by (rule Suc.IH)
    moreover have "i < length subs" using i subs by (metis length_map)
    ultimately show "map (all_nodes (Suc k) h) (child_nodes (h ! n)) ! i = map Some subs ! i"
      using i by simp
  qed
  then have "all_nodes_loop (Suc k) h (child_nodes (h ! n)) [n] = Some ns"
    using ns all_nodes_loop_Some by blast
  then show ?case by simp
qed

lemma all_nodes_add:
  "all_nodes k h n = Some ns \<Longrightarrow> all_nodes (k + d) h n = Some ns"
proof (induction d)
  case 0
  then show ?case by simp
next
  case (Suc d)
  then have "all_nodes (Suc (k + d)) h n = Some ns" by (intro all_nodes_Suc) simp
  then show ?case by simp
qed

lemma all_nodes_mono:
  assumes "all_nodes k h n = Some ns" and "k \<le> k'"
  shows "all_nodes k' h n = Some ns"
proof -
  from assms(2) have "k' = k + (k' - k)" by simp
  with all_nodes_add [OF assms(1), of "k' - k"] show ?thesis by simp
qed


lemma all_nodes_in_range:
  "wf_heap h \<Longrightarrow> n < length h \<Longrightarrow> all_nodes k h n = Some ns \<Longrightarrow> set ns \<subseteq> {..< length h}"
proof (induction k arbitrary: n ns)
  case 0
  then show ?case by simp
next
  case (Suc k)
  from Suc.prems(3) obtain subs where
    subs: "map (all_nodes k h) (child_nodes (h ! n)) = map Some subs" and ns: "ns = [n] @ concat subs"
    by (auto simp: all_nodes_loop_Some)
  have len: "length subs = length (child_nodes (h ! n))"
    using subs by (metis length_map)
  have "set sub \<subseteq> {..< length h}" if "sub \<in> set subs" for sub
  proof -
    from that obtain i where i: "i < length subs" and sub: "sub = subs ! i"
      by (auto simp: in_set_conv_nth)
    let ?c = "child_nodes (h ! n) ! i"
    from i len have "?c \<in> set (child_nodes (h ! n))" by simp
    with Suc.prems(1,2) have "n < ?c \<and> ?c < length h" by (rule wf_heap_child)
    moreover have "all_nodes k h ?c = Some sub"
      using subs i len sub by (metis length_map nth_map)
    ultimately show ?thesis using Suc.IH Suc.prems(1) by blast
  qed
  with ns Suc.prems(2) show ?case by auto
qed

lemma child_nodes_delete: "child_nodes (delete d h ! a) = child_nodes (h ! a)"
proof (cases "d = a")
  case False
  then show ?thesis by (simp add: delete_def)
next
  case True
  show ?thesis
  proof (cases "a < length h")
    case True
    with \<open>d = a\<close> show ?thesis by (simp add: delete_def)
  next
    case False
    with \<open>d = a\<close> show ?thesis by (simp add: delete_def list_update_beyond)
  qed
qed

lemma length_delete [simp]: "length (delete d h) = length h"
  by (simp add: delete_def)

lemma data_delete: "a < length h \<Longrightarrow> data (delete d h ! a) = data (h ! a)"
  by (cases "d = a") (simp_all add: delete_def)

lemma deleted_delete:
  "a < length h \<Longrightarrow> deleted (delete d h ! a) = (a = d \<or> deleted (h ! a))"
  by (cases "d = a") (auto simp: delete_def)

lemma all_nodes_delete:
  "all_nodes k (delete d h) n = all_nodes k h n"
  "all_nodes_loop k (delete d h) cs acc = all_nodes_loop k h cs acc"
proof (induction k h n and k h cs acc rule: all_nodes_all_nodes_loop.induct)
  case (1 h self)
  show ?case by simp
next
  case (2 k h self)
  then show ?case by (simp add: child_nodes_delete)
next
  case (3 k h nodes)
  show ?case by simp
next
  case (4 k h node rest nodes)
  then show ?case by (simp split: option.splits)
qed


lemma map_all_nodes_mono:
  "map (all_nodes k h) cs = map Some subs \<Longrightarrow> k \<le> k' \<Longrightarrow>
     map (all_nodes k' h) cs = map Some subs"
proof (induction cs arbitrary: subs)
  case Nil
  then show ?case by simp
next
  case (Cons c cs)
  from Cons.prems(1) obtain x xs where subs: "subs = x # xs" by (cases subs) auto
  with Cons.prems(1) have c: "all_nodes k h c = Some x" and cs: "map (all_nodes k h) cs = map Some xs"
    by simp_all
  from c Cons.prems(2) have "all_nodes k' h c = Some x" by (rule all_nodes_mono)
  moreover from cs Cons.prems(2) have "map (all_nodes k' h) cs = map Some xs" by (rule Cons.IH)
  ultimately show ?case using subs by simp
qed

lemma all_nodes_preorder:
  assumes "wf_heap h" and "n < length h" and "length h \<le> k"
  shows "\<exists>subs. map (all_nodes k h) (child_nodes (h ! n)) = map Some subs
           \<and> all_nodes k h n = Some (n # concat subs)"
proof -
  from assms(2,3) obtain j where k: "k = Suc j" by (cases k) auto
  from assms have "length h - n \<le> k" by simp
  with assms(1,2) obtain ns where ns: "all_nodes k h n = Some ns"
    using all_nodes_returns by blast
  with k obtain subs where
    subs: "map (all_nodes j h) (child_nodes (h ! n)) = map Some subs" and "ns = [n] @ concat subs"
    by (auto simp: all_nodes_loop_Some)
  with ns have "all_nodes k h n = Some (n # concat subs)" by simp
  moreover have "j \<le> k" using k by simp
  with subs have "map (all_nodes k h) (child_nodes (h ! n)) = map Some subs"
    by (rule map_all_nodes_mono)
  ultimately show ?thesis by blast
qed

lemma comprehension_map_filter: "[f x. x \<leftarrow> xs, P x] = map f (filter P xs)"
  by (induction xs) simp_all

lemma node_type_Document:
  "(node_type x = ''Document'' \<and> deleted x = False) = (is_Document (data x) \<and> \<not> deleted x)"
  by (simp add: node_type_def)

lemma all_documents_eq:
  "all_documents k h n =
     map_option (\<lambda>nodes. map (\<lambda>a. data (h ! a))
        (filter (\<lambda>a. is_Document (data (h ! a)) \<and> \<not> deleted (h ! a)) nodes)) (all_nodes k h n)"
  by (simp only: all_documents_def comprehension_map_filter node_type_Document)
    (simp split: option.splits)

lemma wf_heap_iff:
  "wf_heap h \<longleftrightarrow> (\<forall>a<length h. \<forall>c\<in>set (child_nodes (h ! a)). a < c \<and> c < length h)"
proof
  assume "wf_heap h"
  then show "\<forall>a<length h. \<forall>c\<in>set (child_nodes (h ! a)). a < c \<and> c < length h"
    using wf_heap_child by blast
next
  assume r: "\<forall>a<length h. \<forall>c\<in>set (child_nodes (h ! a)). a < c \<and> c < length h"
  show "wf_heap h"
    unfolding wf_heap_def list_all_iff
  proof (intro ballI)
    fix a c
    assume "a \<in> set [0 ..< length h]" and c: "c \<in> set (child_nodes (h ! a))"
    then have "a < length h" by simp
    with r c show "a < c \<and> c < length h" by blast
  qed
qed

lemma wf_heap_delete:
  assumes "wf_heap h"
  shows "wf_heap (delete d h)"
  unfolding wf_heap_iff
proof (intro allI impI ballI)
  fix a c
  assume "a < length (delete d h)" and "c \<in> set (child_nodes (delete d h ! a))"
  then have "a < length h" and "c \<in> set (child_nodes (h ! a))"
    by (simp_all add: child_nodes_delete)
  with assms have "a < c \<and> c < length h" by (rule wf_heap_child)
  then show "a < c \<and> c < length (delete d h)" by simp
qed

lemma wf_heap_add_child_nodes:
  assumes "wf_heap h" and "p < length h"
  shows "wf_heap (add_child_nodes p ds h)"
  unfolding wf_heap_iff
proof (intro allI impI ballI)
  fix a c
  assume a: "a < length (add_child_nodes p ds h)"
    and c: "c \<in> set (child_nodes (add_child_nodes p ds h ! a))"
  consider "a = p" | "a \<noteq> p" "a < length h" | "length h \<le> a" "a \<noteq> p"
    using assms(2) by linarith
  then show "a < c \<and> c < length (add_child_nodes p ds h)"
  proof cases
    case 1
    with c assms(2) have "c \<in> set (child_nodes (h ! p)) \<or> (length h \<le> c \<and> c < length h + length ds)"
      by (auto simp: child_nodes_add_child_nodes)
    then show ?thesis
    proof
      assume "c \<in> set (child_nodes (h ! p))"
      with assms have "p < c \<and> c < length h" by (rule wf_heap_child)
      with 1 show ?thesis by simp
    next
      assume "length h \<le> c \<and> c < length h + length ds"
      with 1 assms(2) show ?thesis by simp
    qed
  next
    case 2
    with c have "c \<in> set (child_nodes (h ! a))" by (simp add: add_child_nodes_other)
    with assms(1) 2(2) have "a < c \<and> c < length h" by (rule wf_heap_child)
    then show ?thesis by simp
  next
    case 3
    with a obtain i where i: "a = length h + i" "i < length ds"
      by (metis add_diff_inverse_nat length_add_child_nodes nat_add_left_cancel_less not_less)
    with assms(2) have "add_child_nodes p ds h ! a = new_Node (ds ! i) p"
      by (simp add: add_child_nodes_new)
    with c show ?thesis by (simp add: new_Node_def)
  qed
qed

lemma wf_heap_add_nodes:
  "wf_heap h \<Longrightarrow> p < length h \<Longrightarrow> wf_heap (fst (add_nodes encode p ds (h, t)))"
  by (simp add: add_nodes_heap wf_heap_add_child_nodes)

lemma wf_heap_root:
  "wf_heap [\<lparr>data = d, parent = None, child_nodes = [], deleted = False\<rparr>]"
  by (simp add: wf_heap_def)

section \<open>The claims\<close>

text \<open>
  C1, as the specification states it, fails on the code: for a root with no children
  and the dataset [doc1, query1], the two new children are at the front of
  \<open>leaf_nodes\<close> in the order [node(query1), node(doc1)], not [node(doc1), node(query1)].
\<close>

theorem C1_counterexample:
  "child_nodes (fst (add_nodes example_encode 0 (Items [Doc example_doc, Qry ''query1'']) example_state) ! 0) = [1, 2]
   \<and> data (fst (add_nodes example_encode 0 (Items [Doc example_doc, Qry ''query1'']) example_state) ! 1) = Doc example_doc
   \<and> data (fst (add_nodes example_encode 0 (Items [Doc example_doc, Qry ''query1'']) example_state) ! 2) = Qry ''query1''
   \<and> leaf_nodes (snd (add_nodes example_encode 0 (Items [Doc example_doc, Qry ''query1'']) example_state)) = [2, 1]
   \<and> leaf_nodes (snd (add_nodes example_encode 0 (Items [Doc example_doc, Qry ''query1'']) example_state)) \<noteq> [1, 2]"
  by (simp add: example_simps)

text \<open>
  C1, amended: when the dataset of \<open>add_nodes\<close> holds at least one Document, the full
  current child list of the parent (the children it had, followed by the new ones) is
  pushed onto the front of \<open>leaf_nodes\<close> one child after the other, so that it stands
  there in reversed order, before the entries the queue already had.
\<close>

theorem C1_front_reversed:
  assumes "p < length h" and "0 < spec_documents_in ds"
  shows "child_nodes (fst (add_nodes encode p ds (h, t)) ! p) =
           child_nodes (h ! p) @ [length h ..< length h + length (as_sequence ds)]
         \<and> map (\<lambda>a. data (fst (add_nodes encode p ds (h, t)) ! a))
               [length h ..< length h + length (as_sequence ds)] = as_sequence ds
         \<and> leaf_nodes (snd (add_nodes encode p ds (h, t))) =
             rev (child_nodes (fst (add_nodes encode p ds (h, t)) ! p)) @ leaf_nodes t"
proof -
  from assms(2) have docs: "filter is_Document (as_sequence ds) \<noteq> []"
    using documents_as_sequence [of ds] by auto
  show ?thesis
    using assms(1)
    by (simp add: add_nodes_heap add_nodes_documents [OF docs] child_nodes_add_child_nodes
        add_child_nodes_new_data)
qed

theorem C1_front_reversed_witness:
  "(0::nat) < length [example_root]
   \<and> 0 < spec_documents_in (Items [Doc example_doc, Qry ''query1''])
   \<and> child_nodes (fst (add_nodes example_encode 0 (Items [Doc example_doc, Qry ''query1''])
        ([example_root], new_Tree 0)) ! 0) = [1, 2]
   \<and> leaf_nodes (snd (add_nodes example_encode 0 (Items [Doc example_doc, Qry ''query1''])
        ([example_root], new_Tree 0))) = [2, 1]"
  using C1_front_reversed [of 0 "[example_root]" "Items [Doc example_doc, Qry ''query1'']"
      example_encode "new_Tree 0"]
  by (simp add: example_root_def new_Tree_def as_sequence_def)

text \<open>
  C2: a single item passed to \<open>add_nodes\<close> is wrapped in a one-element list.  This holds
  for a single Document.  A single Query is a \<^verbatim>\<open>str\<close>, which the test of line 92 takes
  for a sequence: the Query ''ab'' is not wrapped, and the call makes one child for each
  of its characters, where the call with the list [''ab''] makes the one child.
\<close>

theorem C2_single_query_split:
  "add_nodes encode p (Single (Doc d)) s = add_nodes encode p (Items [Doc d]) s
   \<and> child_nodes (fst (add_nodes example_encode 0 (Single (Qry ''ab'')) example_state) ! 0) = [1, 2]
   \<and> data (fst (add_nodes example_encode 0 (Single (Qry ''ab'')) example_state) ! 1) = Qry ''a''
   \<and> data (fst (add_nodes example_encode 0 (Single (Qry ''ab'')) example_state) ! 2) = Qry ''b''
   \<and> child_nodes (fst (add_nodes example_encode 0 (Items [Qry ''ab'']) example_state) ! 0) = [1]
   \<and> data (fst (add_nodes example_encode 0 (Items [Qry ''ab'']) example_state) ! 1) = Qry ''ab''"
  by (simp add: example_simps)

text \<open>
  C3: when the dataset of \<open>add_nodes\<close> holds at least one Document, \<open>tokens\<close> grows by
  exactly the number of tokens of the concatenation, in dataset order, of the page
  contents of the added Documents; Queries add nothing, so for the dataset
  [doc1, query1] the increase is the token count of the page content of doc1.
\<close>

theorem C3_tokens:
  assumes "0 < spec_documents_in ds"
  shows "tokens (snd (add_nodes encode p ds (h, t))) =
           tokens t + int (length (encode (spec_documents_text (as_sequence ds))))
         \<and> tokens (snd (add_nodes encode p (Items [Doc doc1, Qry query1]) (h, t))) =
           tokens t + int (length (encode (page_content doc1)))"
proof -
  from assms have docs: "filter is_Document (as_sequence ds) \<noteq> []"
    using documents_as_sequence [of ds] by auto
  have "filter is_Document (as_sequence (Items [Doc doc1, Qry query1])) \<noteq> []"
    by (simp add: as_sequence_def)
  from add_nodes_documents [OF this] add_nodes_documents [OF docs]
  show ?thesis by (simp add: as_sequence_def)
qed

theorem C3_tokens_witness:
  "0 < spec_documents_in (Items [Doc example_doc, Qry ''query1'', Doc example_doc])
   \<and> tokens (snd (add_nodes example_encode 0
        (Items [Doc example_doc, Qry ''query1'', Doc example_doc]) example_state)) = 10
   \<and> tokens (snd (add_nodes example_encode 0
        (Items [Doc example_doc, Qry ''query1'']) example_state)) = 5"
  using C3_tokens [of "Items [Doc example_doc, Qry ''query1'', Doc example_doc]" example_encode 0
      "[example_root]" "new_Tree 0" example_doc "''query1''"]
  by (simp add: example_state_def as_sequence_def example_doc_def example_encode_def new_Tree_def)

text \<open>
  C4: over every run of \<open>add_nodes\<close> and \<open>delete\<close> calls, \<open>doc_node_num\<close> grows by the
  number of Document items passed to the \<open>add_nodes\<close> calls, so on a tree that starts with
  the default counters it equals that number; \<open>tokens\<close> and \<open>doc_node_num\<close> never
  decrease, and \<open>delete\<close> changes neither.
\<close>

theorem C4_counters:
  "doc_node_num (snd (run encode xs (h, new_Tree r))) = int (spec_documents_passed xs)
   \<and> doc_node_num (snd (run encode xs s)) = doc_node_num (snd s) + int (spec_documents_passed xs)
   \<and> tokens (snd s) \<le> tokens (snd (run encode xs s))
   \<and> doc_node_num (snd s) \<le> doc_node_num (snd (run encode xs s))
   \<and> tokens (snd (step encode (Delete a) s)) = tokens (snd s)
   \<and> doc_node_num (snd (step encode (Delete a) s)) = doc_node_num (snd s)"
  using run_counters [of encode xs s] run_counters [of encode xs "(h, new_Tree r)"]
  by (simp add: new_Tree_def)

text \<open>
  C5: when the dataset of \<open>add_nodes\<close> holds no Document, the full current child list of
  the parent (the children it had, followed by the new query nodes) is appended to the
  back of \<open>leaf_nodes\<close> in order, and \<open>tokens\<close> and \<open>doc_node_num\<close> stay as they were.
\<close>

theorem C5_queries_back:
  assumes "p < length h" and "spec_documents_in ds = 0"
  shows "child_nodes (fst (add_nodes encode p ds (h, t)) ! p) =
           child_nodes (h ! p) @ [length h ..< length h + length (as_sequence ds)]
         \<and> map (\<lambda>a. data (fst (add_nodes encode p ds (h, t)) ! a))
               [length h ..< length h + length (as_sequence ds)] = as_sequence ds
         \<and> leaf_nodes (snd (add_nodes encode p ds (h, t))) =
             leaf_nodes t @ child_nodes (fst (add_nodes encode p ds (h, t)) ! p)
         \<and> tokens (snd (add_nodes encode p ds (h, t))) = tokens t
         \<and> doc_node_num (snd (add_nodes encode p ds (h, t))) = doc_node_num t"
proof -
  from assms(2) have q: "filter is_Document (as_sequence ds) = []"
    using documents_as_sequence [of ds] by simp
  show ?thesis
    using assms(1)
    by (simp add: add_nodes_heap add_nodes_queries [OF q] child_nodes_add_child_nodes
        add_child_nodes_new_data)
qed

theorem C5_queries_back_witness:
  "(0::nat) < length example_heap_AB
   \<and> spec_documents_in (Items [Qry ''query2'']) = 0
   \<and> child_nodes (fst (add_nodes example_encode 0 (Items [Qry ''query2''])
        (example_heap_AB, (new_Tree 0)\<lparr>leaf_nodes := [2, 1]\<rparr>)) ! 0) = [1, 2, 3]
   \<and> leaf_nodes (snd (add_nodes example_encode 0 (Items [Qry ''query2''])
        (example_heap_AB, (new_Tree 0)\<lparr>leaf_nodes := [2, 1]\<rparr>))) = [2, 1, 1, 2, 3]
   \<and> tokens (snd (add_nodes example_encode 0 (Items [Qry ''query2''])
        (example_heap_AB, (new_Tree 0)\<lparr>leaf_nodes := [2, 1]\<rparr>))) = 0
   \<and> doc_node_num (snd (add_nodes example_encode 0 (Items [Qry ''query2''])
        (example_heap_AB, (new_Tree 0)\<lparr>leaf_nodes := [2, 1]\<rparr>))) = 0"
  using C5_queries_back [of 0 example_heap_AB "Items [Qry ''query2'']" example_encode
      "(new_Tree 0)\<lparr>leaf_nodes := [2, 1]\<rparr>"]
  by (simp add: example_heap_AB_def new_Tree_def as_sequence_def)

text \<open>
  C6: on a store that holds trees, \<open>all_documents\<close> on a node returns (with enough call
  depth) the data of exactly those nodes of \<open>all_nodes\<close> that hold a Document and are not
  deleted, in the order of \<open>all_nodes\<close>.  After \<open>delete\<close> on a node \<open>d\<close>, \<open>all_nodes\<close>
  returns the same nodes, \<open>d\<close> among them, and \<open>all_documents\<close> leaves out \<open>d\<close>.
\<close>

theorem C6_all_documents:
  assumes "wf_heap h" and "n < length h" and "length h \<le> k"
  shows "\<exists>nodes. all_nodes k h n = Some nodes
     \<and> all_documents k h n =
         Some (map (\<lambda>a. data (h ! a))
           (filter (\<lambda>a. is_Document (data (h ! a)) \<and> \<not> deleted (h ! a)) nodes))
     \<and> all_nodes k (delete d h) n = Some nodes
     \<and> all_documents k (delete d h) n =
         Some (map (\<lambda>a. data (h ! a))
           (filter (\<lambda>a. a \<noteq> d \<and> is_Document (data (h ! a)) \<and> \<not> deleted (h ! a)) nodes))"
proof -
  from assms have "length h - n \<le> k" by simp
  with assms(1,2) obtain nodes where nodes: "all_nodes k h n = Some nodes"
    using all_nodes_returns by blast
  with assms(1,2) have range: "set nodes \<subseteq> {..< length h}"
    by (rule all_nodes_in_range)
  have del: "all_nodes k (delete d h) n = Some nodes"
    using nodes by (simp add: all_nodes_delete)
  have f: "filter (\<lambda>a. is_Document (data (delete d h ! a)) \<and> \<not> deleted (delete d h ! a)) nodes =
        filter (\<lambda>a. a \<noteq> d \<and> is_Document (data (h ! a)) \<and> \<not> deleted (h ! a)) nodes"
    using range by (intro filter_cong) (auto simp: data_delete deleted_delete)
  have m: "map (\<lambda>a. data (delete d h ! a)) xs = map (\<lambda>a. data (h ! a)) xs"
    if "set xs \<subseteq> set nodes" for xs
    using that range by (intro map_cong) (auto simp: data_delete)
  have "all_documents k (delete d h) n =
      Some (map (\<lambda>a. data (h ! a))
        (filter (\<lambda>a. a \<noteq> d \<and> is_Document (data (h ! a)) \<and> \<not> deleted (h ! a)) nodes))"
    using del by (simp add: all_documents_eq f m)
  with nodes del show ?thesis by (simp add: all_documents_eq)
qed

theorem C6_all_documents_witness:
  "wf_heap example_tree \<and> (0::nat) < length example_tree \<and> length example_tree \<le> 4
   \<and> all_nodes 4 example_tree 0 = Some [0, 1, 3, 2]
   \<and> all_documents 4 example_tree 0 = Some [Doc example_doc, Doc example_doc2]
   \<and> all_nodes 4 (delete 1 example_tree) 0 = Some [0, 1, 3, 2]
   \<and> all_documents 4 (delete 1 example_tree) 0 = Some [Doc example_doc2]"
  using C6_all_documents [of example_tree 0 4 1]
  by (simp add: example_tree_def wf_heap_def eval_nat_numeral all_documents_def node_type_def
      delete_def)

text \<open>
  C7: on a store that holds trees, \<open>all_nodes\<close> on a node \<open>n\<close> returns (with enough call
  depth) \<open>n\<close> itself followed by the results of \<open>all_nodes\<close> on its children, concatenated
  in child order.  It changes no state, and every call with at least that depth returns
  the same list.
\<close>

theorem C7_all_nodes_preorder:
  assumes "wf_heap h" and "n < length h" and "length h \<le> k"
  shows "\<exists>subs. map (all_nodes k h) (child_nodes (h ! n)) = map Some subs
           \<and> all_nodes k h n = Some (n # concat subs)
           \<and> (\<forall>k'. k \<le> k' \<longrightarrow> all_nodes k' h n = Some (n # concat subs))"
proof -
  from all_nodes_preorder [OF assms] obtain subs where
    s: "map (all_nodes k h) (child_nodes (h ! n)) = map Some subs"
       "all_nodes k h n = Some (n # concat subs)"
    by blast
  from s(2) have "\<forall>k'. k \<le> k' \<longrightarrow> all_nodes k' h n = Some (n # concat subs)"
    using all_nodes_mono by blast
  with s show ?thesis by blast
qed

theorem C7_all_nodes_preorder_witness:
  "wf_heap example_tree \<and> (0::nat) < length example_tree \<and> length example_tree \<le> 4
   \<and> child_nodes (example_tree ! 0) = [1, 2]
   \<and> all_nodes 4 example_tree 1 = Some [1, 3]
   \<and> all_nodes 4 example_tree 2 = Some [2]
   \<and> all_nodes 4 example_tree 0 = Some [0, 1, 3, 2]
   \<and> all_nodes 7 example_tree 0 = Some [0, 1, 3, 2]"
  using C7_all_nodes_preorder [of example_tree 0 4]
  by (simp add: example_tree_def wf_heap_def eval_nat_numeral)

text \<open>
  C8: \<open>create\<close> fails its assertion exactly when no page content is given (none, or the
  empty string) and no candidate field, taken in the configured order, has a non-empty
  value.  On metadata that is valid for its declared type this is the only error:
  with no page content given, the Document is made from the first non-empty candidate
  value; a non-empty page content argument is used whatever the candidate fields hold.
  In both cases the content then goes through the length limit of C9, and the Document
  holds the declared keys of the metadata.
\<close>

theorem C8_create:
  "(create keys mx md pc = Inl AssertionError \<longleftrightarrow>
      \<not> truthy pc \<and> spec_first_content md keys = None)
   \<and> (valid_metadata md \<longrightarrow>
        ((\<exists>e. create keys mx md pc = Inl e) \<longleftrightarrow>
           \<not> truthy pc \<and> spec_first_content md keys = None)
        \<and> (\<not> truthy pc \<and> spec_first_content md keys = Some v \<longrightarrow>
             create keys mx md pc =
               Inr \<lparr>metadata = md |` set Metadata_keys,
                    page_content = (if mx < int (length v) then slice_to v mx @ ''...'' else v)\<rparr>)
        \<and> (c \<noteq> [] \<longrightarrow>
             create keys mx md (Some c) =
               Inr \<lparr>metadata = md |` set Metadata_keys,
                    page_content = (if mx < int (length c) then slice_to c mx @ ''...'' else c)\<rparr>))"
proof (intro conjI impI)
  show "create keys mx md pc = Inl AssertionError \<longleftrightarrow>
      \<not> truthy pc \<and> spec_first_content md keys = None"
    by (cases pc)
      (auto simp: create_eq spec_content_def new_Document_not_AssertionError
        split: option.splits)
next
  assume "valid_metadata md"
  then show "(\<exists>e. create keys mx md pc = Inl e) \<longleftrightarrow>
      \<not> truthy pc \<and> spec_first_content md keys = None"
    by (cases pc) (auto simp: create_eq spec_content_def new_Document_def split: option.splits)
next
  assume "valid_metadata md" and "\<not> truthy pc \<and> spec_first_content md keys = Some v"
  then show "create keys mx md pc =
      Inr \<lparr>metadata = md |` set Metadata_keys,
           page_content = (if mx < int (length v) then slice_to v mx @ ''...'' else v)\<rparr>"
    by (simp add: create_eq spec_content_def new_Document_def)
next
  assume "valid_metadata md" and "c \<noteq> []"
  then show "create keys mx md (Some c) =
      Inr \<lparr>metadata = md |` set Metadata_keys,
           page_content = (if mx < int (length c) then slice_to c mx @ ''...'' else c)\<rparr>"
    by (simp add: create_eq spec_content_def new_Document_def)
qed

theorem C8_create_witness:
  "valid_metadata example_md
   \<and> \<not> truthy None
   \<and> spec_first_content example_md [''content'', ''summary'', ''title''] = Some ''abcdef''
   \<and> create [''content'', ''summary'', ''title''] 10 example_md None =
       Inr \<lparr>metadata = example_md |` set Metadata_keys, page_content = ''abcdef''\<rparr>
   \<and> ''body'' \<noteq> []
   \<and> create [''content'', ''summary'', ''title''] 10 example_md (Some ''body'') =
       Inr \<lparr>metadata = example_md |` set Metadata_keys, page_content = ''body''\<rparr>
   \<and> spec_first_content example_md [''content'', ''abstract''] = None
   \<and> create [''content'', ''abstract''] 10 example_md None = Inl AssertionError
   \<and> create [''content'', ''abstract''] 10 example_md (Some []) = Inl AssertionError"
  using C8_create [of "[''content'', ''summary'', ''title'']" 10 example_md None "''abcdef''" "''body''"]
    C8_create [of "[''content'', ''abstract'']" 10 example_md None]
    C8_create [of "[''content'', ''abstract'']" 10 example_md "Some []"]
    valid_metadata_example
  by (simp add: spec_first_content_Cons example_md_def)

text \<open>
  C9: for a maximum length that is not negative and metadata that is valid for its
  declared type, \<open>create\<close> returns a Document; content longer than the maximum becomes
  its first \<open>MAX_CHUNK_SIZE\<close> characters followed by three dots, of total length
  \<open>MAX_CHUNK_SIZE + 3\<close>; content no longer than the maximum is left as it is.
\<close>

theorem C9_truncation:
  assumes "0 \<le> mx" and "valid_metadata md" and "spec_content md keys pc = Some c"
  shows "\<exists>d. create keys mx md pc = Inr d \<and> metadata d = md |` set Metadata_keys
     \<and> (mx < int (length c) \<longrightarrow>
          page_content d = take (nat mx) c @ ''...'' \<and> length (page_content d) = nat mx + 3)
     \<and> (int (length c) \<le> mx \<longrightarrow> page_content d = c)"
proof -
  let ?d = "\<lparr>metadata = md |` set Metadata_keys,
             page_content = (if mx < int (length c) then slice_to c mx @ ''...'' else c)\<rparr>"
  from assms(2,3) have "create keys mx md pc = Inr ?d"
    by (simp add: create_eq new_Document_def)
  moreover have "metadata ?d = md |` set Metadata_keys" by simp
  moreover have "mx < int (length c) \<longrightarrow>
      page_content ?d = take (nat mx) c @ ''...'' \<and> length (page_content ?d) = nat mx + 3"
    using assms(1) by (auto simp: slice_to_def)
  moreover have "int (length c) \<le> mx \<longrightarrow> page_content ?d = c" by simp
  ultimately show ?thesis by blast
qed

theorem C9_truncation_witness:
  "(0::int) \<le> 3
   \<and> valid_metadata example_md
   \<and> spec_content example_md [''content'', ''summary''] None = Some ''abcdef''
   \<and> create [''content'', ''summary''] 3 example_md None =
       Inr \<lparr>metadata = example_md |` set Metadata_keys, page_content = ''abc...''\<rparr>
   \<and> (0::int) \<le> 6
   \<and> spec_content example_md [''content'', ''summary''] (Some ''abcdef'') = Some ''abcdef''
   \<and> create [''content'', ''summary''] 6 example_md (Some ''abcdef'') =
       Inr \<lparr>metadata = example_md |` set Metadata_keys, page_content = ''abcdef''\<rparr>"
proof -
  have v: "valid_metadata example_md" by (rule valid_metadata_example)
  have s1: "spec_content example_md [''content'', ''summary''] None = Some ''abcdef''"
    by (simp add: spec_content_def spec_first_content_Cons example_md_def)
  have s2: "spec_content example_md [''content'', ''summary''] (Some ''abcdef'') = Some ''abcdef''"
    by (simp add: spec_content_def)
  have m3: "(0::int) \<le> 3" and m6: "(0::int) \<le> 6" by simp_all
  from C9_truncation [OF m3 v s1] obtain d1 where
    d1: "create [''content'', ''summary''] 3 example_md None = Inr d1"
      "metadata d1 = example_md |` set Metadata_keys" "page_content d1 = ''abc...''"
    by auto
  from C9_truncation [OF m6 v s2] obtain d2 where
    d2: "create [''content'', ''summary''] 6 example_md (Some ''abcdef'') = Inr d2"
      "metadata d2 = example_md |` set Metadata_keys" "page_content d2 = ''abcdef''"
    by auto
  have "d1 = \<lparr>metadata = example_md |` set Metadata_keys, page_content = ''abc...''\<rparr>"
    using d1(2,3) by (cases d1) simp
  moreover have "d2 = \<lparr>metadata = example_md |` set Metadata_keys, page_content = ''abcdef''\<rparr>"
    using d2(2,3) by (cases d2) simp
  ultimately show ?thesis using v s1 s2 d1(1) d2(1) by simp
qed

text \<open>
  C10: \<open>leaf_nodes\<close> may hold a node several times.  A child \<open>c\<close> that an \<open>add_nodes\<close>
  call on \<open>p\<close> created is still a child of \<open>p\<close> after any further calls, and a later
  \<open>add_nodes\<close> call on \<open>p\<close> adds to \<open>leaf_nodes\<close> as many entries for \<open>c\<close> as the child
  list of \<open>p\<close> has, at least one: \<open>leaf_nodes\<close> then holds \<open>c\<close> at least twice.
\<close>

theorem C10_repeated_entries:
  assumes "p < length h"
    and "length h \<le> c" and "c < length h + length (as_sequence ds1)"
  shows "c \<in> set (child_nodes (fst (add_nodes encode p ds1 (h, t)) ! p))
     \<and> 1 \<le> count_list (leaf_nodes (snd (run encode xs (add_nodes encode p ds1 (h, t))))) c
     \<and> count_list (leaf_nodes (snd
           (add_nodes encode p ds2 (run encode xs (add_nodes encode p ds1 (h, t)))))) c
         = count_list (leaf_nodes (snd (run encode xs (add_nodes encode p ds1 (h, t))))) c
           + count_list (child_nodes (fst
               (add_nodes encode p ds2 (run encode xs (add_nodes encode p ds1 (h, t)))) ! p)) c
     \<and> 1 \<le> count_list (child_nodes (fst
               (add_nodes encode p ds2 (run encode xs (add_nodes encode p ds1 (h, t)))) ! p)) c
     \<and> 2 \<le> count_list (leaf_nodes (snd
           (add_nodes encode p ds2 (run encode xs (add_nodes encode p ds1 (h, t)))))) c"
proof -
  let ?s1 = "add_nodes encode p ds1 (h, t)"
  let ?s2 = "run encode xs ?s1"
  let ?s3 = "add_nodes encode p ds2 ?s2"
  have c1: "c \<in> set (child_nodes (fst ?s1 ! p))"
    using assms by (simp add: add_nodes_heap child_nodes_add_child_nodes)
  have p1: "p < length (fst ?s1)"
    using assms(1) by (simp add: add_nodes_heap)
  have "1 \<le> count_list (child_nodes (fst ?s1 ! p)) c"
    using c1 by (rule count_list_pos)
  then have l1: "1 \<le> count_list (leaf_nodes (snd ?s1)) c"
    using add_nodes_leaf_count [of encode p ds1 "(h, t)" c] by simp
  have l2: "1 \<le> count_list (leaf_nodes (snd ?s2)) c"
    using l1 run_leaf_count [of ?s1 c encode xs] by simp
  from run_keeps_children [OF p1, of encode xs]
  have p2: "p < length (fst ?s2)" and c2: "c \<in> set (child_nodes (fst ?s2 ! p))"
    using c1 by auto
  have "set (child_nodes (fst ?s2 ! p)) \<subseteq> set (child_nodes (fst (step encode (Add_nodes p ds2) ?s2) ! p))"
    using p2 by (rule step_keeps_children)
  then have c3: "c \<in> set (child_nodes (fst ?s3 ! p))"
    using c2 by auto
  then have k3: "1 \<le> count_list (child_nodes (fst ?s3 ! p)) c"
    by (rule count_list_pos)
  have e3: "count_list (leaf_nodes (snd ?s3)) c =
      count_list (leaf_nodes (snd ?s2)) c + count_list (child_nodes (fst ?s3 ! p)) c"
    by (rule add_nodes_leaf_count)
  from c1 l2 e3 k3 show ?thesis by simp
qed

theorem C10_repeated_entries_witness:
  "(0::nat) < length [example_root] \<and> length [example_root] \<le> (1::nat)
   \<and> (1::nat) < length [example_root] + length (as_sequence (Items [Doc example_doc, Qry ''query1'']))
   \<and> leaf_nodes (snd (add_nodes example_encode 0 (Items [Qry ''query2''])
        (run example_encode [Delete 1]
          (add_nodes example_encode 0 (Items [Doc example_doc, Qry ''query1''])
            ([example_root], new_Tree 0))))) = [2, 1, 1, 2, 3]
   \<and> 2 \<le> count_list (leaf_nodes (snd (add_nodes example_encode 0 (Items [Qry ''query2''])
        (run example_encode [Delete 1]
          (add_nodes example_encode 0 (Items [Doc example_doc, Qry ''query1''])
            ([example_root], new_Tree 0)))))) 1"
  using C10_repeated_entries [of 0 "[example_root]" 1 "Items [Doc example_doc, Qry ''query1'']"
      example_encode "new_Tree 0" "[Delete 1]" "Items [Qry ''query2'']"]
  by (simp add: example_simps delete_def)

end
